theory Spec2Isabelle
  imports Main "HOL-Library.Word" "HOL-Library.Multiset"
begin

section \<open>JavaScript strings\<close>

text \<open>
  A JavaScript string is a sequence of UTF-16 code units; \<open>length\<close>, indexing,
  \<open>indexOf\<close>, \<open>includes\<close>, \<open>substring\<close>, \<open>split\<close> and \<open>trim\<close> all count code
  units. Every character of the idiom catalog and of the lookup tables is one code unit.
\<close>

type_synonym jchar = "16 word"
type_synonym jstring = "jchar list"

text \<open>\<open>s[i]\<close>: the one-unit string at index \<open>i\<close>, or \<open>undefined\<close> (here \<open>None\<close>)
  outside the string.\<close>

definition charAt :: "jstring \<Rightarrow> int \<Rightarrow> jstring option" where
  "charAt s i = (if 0 \<le> i \<and> i < int (length s) then Some [s ! nat i] else None)"

text \<open>\<open>ToString\<close> of a value that is a string or \<open>undefined\<close>: used where such a
  value is a property key or the argument of \<open>indexOf\<close>.\<close>

definition toStr :: "jstring option \<Rightarrow> jstring" where
  "toStr v = (case v of
      None \<Rightarrow> [0x75, 0x6E, 0x64, 0x65, 0x66, 0x69, 0x6E, 0x65, 0x64]
    | Some s \<Rightarrow> s)"

text \<open>\<open>s.indexOf(search, position)\<close>: the position is clamped to \<open>0 .. length s\<close>;
  the result is the least \<open>k\<close> from there on at which \<open>search\<close> occurs in \<open>s\<close>, else
  \<open>-1\<close>. An occurrence at \<open>k\<close> needs \<open>k + length search \<le> length s\<close>, which the
  comparison of \<open>take\<close> with \<open>search\<close> enforces.\<close>

definition occursAt :: "jstring \<Rightarrow> jstring \<Rightarrow> nat \<Rightarrow> bool" where
  "occursAt s search k = (take (length search) (drop k s) = search)"

definition indexOf :: "jstring \<Rightarrow> jstring \<Rightarrow> int \<Rightarrow> int" where
  "indexOf s search position =
     (case find (occursAt s search) [min (nat (max position 0)) (length s) ..< Suc (length s)] of
        None \<Rightarrow> - 1
      | Some k \<Rightarrow> int k)"

definition includesStr :: "jstring \<Rightarrow> jstring \<Rightarrow> bool" where
  "includesStr s search = (indexOf s search 0 \<noteq> - 1)"

text \<open>\<open>s.substring(a, b)\<close> for non-negative arguments: both are clamped to the length
  and swapped when out of order.\<close>

definition substring :: "jstring \<Rightarrow> nat \<Rightarrow> nat \<Rightarrow> jstring" where
  "substring s a b =
     (let a' = min a (length s); b' = min b (length s)
      in take (max a' b' - min a' b') (drop (min a' b') s))"

text \<open>\<open>WhiteSpace\<close> and \<open>LineTerminator\<close> code units, which \<open>trim\<close> removes.\<close>

definition isWhiteSpace :: "jchar \<Rightarrow> bool" where
  "isWhiteSpace c = (c \<in> set [0x9, 0xA, 0xB, 0xC, 0xD, 0x20, 0xA0, 0x1680,
      0x2000, 0x2001, 0x2002, 0x2003, 0x2004, 0x2005, 0x2006, 0x2007, 0x2008, 0x2009,
      0x200A, 0x2028, 0x2029, 0x202F, 0x205F, 0x3000, 0xFEFF])"

definition trim :: "jstring \<Rightarrow> jstring" where
  "trim s = rev (dropWhile isWhiteSpace (rev (dropWhile isWhiteSpace s)))"

text \<open>\<open>text.split(/\n+/)\<close>. The regular expression matches a maximal run of line feeds
  (U+000A) and never the empty string, so the split walks the string, closes the current
  piece at a line feed, skips the whole run, and at the end pushes the last piece (the
  empty string gives one empty piece).\<close>

definition LF :: jchar where
  "LF = 0xA"

function splitNewlines :: "jstring \<Rightarrow> jstring \<Rightarrow> jstring list" where
  "splitNewlines piece [] = [piece]"
| "splitNewlines piece (c # cs) =
     (if c = LF then piece # splitNewlines [] (dropWhile (\<lambda>x. x = LF) cs)
      else splitNewlines (piece @ [c]) cs)"
  by pat_completeness auto
termination
  by (relation "measure (\<lambda>(piece, s). length s)")
     (auto simp: le_imp_less_Suc length_dropWhile_le)

definition splitParagraphs :: "jstring \<Rightarrow> jstring list" where
  "splitParagraphs text = filter (\<lambda>p. length (trim p) > 0) (splitNewlines [] text)"

section \<open>The mock pipeline (js/api.js)\<close>

datatype completion = NoField | NullValue | Idiom jstring

record segment =
  segText :: "jstring option"
  pinyin :: jstring
  translation :: jstring
  isChengyu :: bool
  chengyuComplete :: completion

record processedParagraph =
  paragraphText :: jstring
  segments :: "segment list"

record processed =
  original :: jstring
  paragraphs :: "processedParagraph list"

definition sampleChengyu :: "jstring list" where
  "sampleChengyu =
    [ [0x4E00, 0x5FC3, 0x4E00, 0x610F], [0x4E0D, 0x53EF, 0x601D, 0x8BAE],
     [0x5165, 0x4E61, 0x968F, 0x4FD7], [0x81EA, 0x8A00, 0x81EA, 0x8BED],
     [0x56DB, 0x9762, 0x516B, 0x65B9], [0x5343, 0x53D8, 0x4E07, 0x5316],
     [0x65E0, 0x5FE7, 0x65E0, 0x8651], [0x4E0D, 0x77E5, 0x4E0D, 0x89C9] ]"

text \<open>The \<open>while\<close> loop that collects every start index of \<open>cy\<close> in the paragraph. It
  does not end for the empty search string (\<open>indexOf\<close> then answers the clamped position
  for ever), so it is a partial function: \<open>None\<close> is the loop that never returns.\<close>

partial_function (option) collectIndices ::
    "jstring \<Rightarrow> jstring \<Rightarrow> int \<Rightarrow> int list \<Rightarrow> int list option" where
  "collectIndices paragraph cy index indices =
     (if index \<noteq> - 1
      then collectIndices paragraph cy (indexOf paragraph cy (index + 1)) (indices @ [index])
      else Some indices)"

declare collectIndices.simps [code]

text \<open>\<open>getMockPinyin\<close> and \<open>getMockTranslation\<close>: a table lookup with the placeholder
  where the table gives nothing (\<open>table[char] || placeholder\<close>: a missing key and an
  empty value both give the placeholder). The tables are keyed by one-unit strings; a key
  \<open>undefined\<close> is looked up as the string \<open>undefined\<close>.\<close>

definition mockPinyinMap :: "(jstring \<times> jstring) list" where
  "mockPinyinMap =
    [([0x6211], [0x77, 0x1D2]),
     ([0x4F60], [0x6E, 0x1D0]),
     ([0x4ED6], [0x74, 0x101]),
     ([0x5979], [0x74, 0x101]),
     ([0x4EEC], [0x6D, 0x65, 0x6E]),
     ([0x597D], [0x68, 0x1CE, 0x6F]),
     ([0x4E00], [0x79, 0x12B]),
     ([0x4E8C], [0xE8, 0x72]),
     ([0x4E09], [0x73, 0x101, 0x6E]),
     ([0x4E2D], [0x7A, 0x68, 0x14D, 0x6E, 0x67]),
     ([0x56FD], [0x67, 0x75, 0xF3]),
     ([0x4EBA], [0x72, 0xE9, 0x6E]),
     ([0x5927], [0x64, 0xE0]),
     ([0x5C0F], [0x78, 0x69, 0x1CE, 0x6F]),
     ([0x4E0A], [0x73, 0x68, 0xE0, 0x6E, 0x67]),
     ([0x4E0B], [0x78, 0x69, 0xE0]),
     ([0x4E0D], [0x62, 0xF9]),
     ([0x662F], [0x73, 0x68, 0xEC]),
     ([0x4E86], [0x6C, 0x65])]"

definition mockTranslationMap :: "(jstring \<times> jstring) list" where
  "mockTranslationMap =
    [([0x6211], [0x49, 0x2F, 0x6D, 0x65]),
     ([0x4F60], [0x79, 0x6F, 0x75]),
     ([0x4ED6], [0x68, 0x65]),
     ([0x5979], [0x73, 0x68, 0x65]),
     ([0x4EEC], [0x70, 0x6C, 0x75, 0x72, 0x61, 0x6C, 0x20, 0x6D, 0x61, 0x72, 0x6B, 0x65, 0x72]),
     ([0x597D], [0x67, 0x6F, 0x6F, 0x64]),
     ([0x4E00], [0x6F, 0x6E, 0x65]),
     ([0x4E8C], [0x74, 0x77, 0x6F]),
     ([0x4E09], [0x74, 0x68, 0x72, 0x65, 0x65]),
     ([0x4E2D], [0x6D, 0x69, 0x64, 0x64, 0x6C, 0x65]),
     ([0x56FD], [0x63, 0x6F, 0x75, 0x6E, 0x74, 0x72, 0x79]),
     ([0x4EBA], [0x70, 0x65, 0x72, 0x73, 0x6F, 0x6E]),
     ([0x5927], [0x62, 0x69, 0x67]),
     ([0x5C0F], [0x73, 0x6D, 0x61, 0x6C, 0x6C]),
     ([0x4E0A], [0x75, 0x70, 0x2F, 0x61, 0x62, 0x6F, 0x76, 0x65]),
     ([0x4E0B], [0x64, 0x6F, 0x77, 0x6E, 0x2F, 0x62, 0x65, 0x6C, 0x6F, 0x77]),
     ([0x4E0D], [0x6E, 0x6F, 0x2F, 0x6E, 0x6F, 0x74]),
     ([0x662F], [0x69, 0x73, 0x2F, 0x61, 0x6D, 0x2F, 0x61, 0x72, 0x65]),
     ([0x4E86], [0x70, 0x61, 0x73, 0x74, 0x20, 0x74, 0x65, 0x6E, 0x73, 0x65, 0x20, 0x6D, 0x61,
                 0x72, 0x6B, 0x65, 0x72])]"

definition lookupOr :: "(jstring \<times> jstring) list \<Rightarrow> jstring \<Rightarrow> jstring option \<Rightarrow> jstring" where
  "lookupOr table placeholder char =
     (case map_of table (toStr char) of
        None \<Rightarrow> placeholder
      | Some v \<Rightarrow> if v = [] then placeholder else v)"

definition pinyinPlaceholder :: jstring where
  "pinyinPlaceholder = [0x70, 0x69, 0x6E, 0x79, 0x69, 0x6E]"

definition translationPlaceholder :: jstring where
  "translationPlaceholder = [0x74, 0x72, 0x61, 0x6E, 0x73, 0x6C, 0x61, 0x74, 0x69, 0x6F, 0x6E]"

definition getMockPinyin :: "jstring option \<Rightarrow> jstring" where
  "getMockPinyin char = lookupOr mockPinyinMap pinyinPlaceholder char"

definition getMockTranslation :: "jstring option \<Rightarrow> jstring" where
  "getMockTranslation char = lookupOr mockTranslationMap translationPlaceholder char"

text \<open>The body of the paragraph callback of \<open>mockProcessTextResponse\<close>. The two lookup
  functions and the idiom list, which the source fixes as \<open>getMockPinyin\<close>,
  \<open>getMockTranslation\<close> and \<open>sampleChengyu\<close>, are arguments here (\<open>pin\<close>, \<open>tr\<close>,
  \<open>catalog\<close>), so that properties can be stated for any lexicon and any catalog;
  \<open>mockProcessTextResponse\<close> below passes the source's own.\<close>

type_synonym lookup = "jstring option \<Rightarrow> jstring"

text \<open>The segments pushed for one occurrence of \<open>cy\<close> at \<open>startIdx\<close>.\<close>

definition markChengyu :: "lookup \<Rightarrow> lookup \<Rightarrow> jstring \<Rightarrow> jstring \<Rightarrow> int \<Rightarrow> segment list" where
  "markChengyu pin tr paragraph cy startIdx =
     map (\<lambda>i. \<lparr> segText = charAt paragraph (startIdx + int i),
                pinyin = pin (charAt paragraph (startIdx + int i)),
                translation = tr (charAt paragraph (startIdx + int i)),
                isChengyu = True,
                chengyuComplete = (if int i = int (length cy) - 1 then Idiom cy else NullValue) \<rparr>)
         [0 ..< length cy]"

text \<open>\<open>sampleChengyu.forEach(cy => ...)\<close>, with the array \<open>segments\<close> threaded through.\<close>

fun chengyuPass ::
    "lookup \<Rightarrow> lookup \<Rightarrow> jstring \<Rightarrow> jstring list \<Rightarrow> segment list \<Rightarrow> segment list option" where
  "chengyuPass pin tr paragraph [] segs = Some segs"
| "chengyuPass pin tr paragraph (cy # rest) segs =
     (if includesStr paragraph cy then
        (case collectIndices paragraph cy (indexOf paragraph cy 0) [] of
           None \<Rightarrow> None
         | Some indices \<Rightarrow>
             chengyuPass pin tr paragraph rest
               (segs @ concat (map (markChengyu pin tr paragraph cy) indices)))
      else chengyuPass pin tr paragraph rest segs)"

text \<open>The loop over the remaining characters, from index \<open>i\<close> on.\<close>

function plainPass :: "lookup \<Rightarrow> lookup \<Rightarrow> jstring \<Rightarrow> nat \<Rightarrow> segment list \<Rightarrow> segment list" where
  "plainPass pin tr paragraph i segs =
     (if i < length paragraph then
        (if \<exists>s \<in> set segs. segText s = charAt paragraph (int i) \<and> isChengyu s
         then plainPass pin tr paragraph (i + 1) segs
         else plainPass pin tr paragraph (i + 1)
                (segs @ [\<lparr> segText = charAt paragraph (int i),
                           pinyin = pin (charAt paragraph (int i)),
                           translation = tr (charAt paragraph (int i)),
                           isChengyu = False,
                           chengyuComplete = NoField \<rparr>]))
      else segs)"
  by pat_completeness auto
termination
  by (relation "measure (\<lambda>(pin, tr, paragraph, i, segs). length paragraph - i)") auto

declare plainPass.simps [simp del]

text \<open>\<open>segments.sort((a, b) => paragraph.indexOf(a.text) - paragraph.indexOf(b.text))\<close>:
  \<open>Array.prototype.sort\<close> is a stable sort (ECMAScript 2019), here by the key
  \<open>paragraph.indexOf(s.text)\<close>.\<close>

definition sortSegments :: "jstring \<Rightarrow> segment list \<Rightarrow> segment list" where
  "sortSegments paragraph segs =
     sort_key (\<lambda>s. indexOf paragraph (toStr (segText s)) 0) segs"

definition mockParagraph ::
    "lookup \<Rightarrow> lookup \<Rightarrow> jstring list \<Rightarrow> jstring \<Rightarrow> processedParagraph option" where
  "mockParagraph pin tr catalog paragraph =
     (case chengyuPass pin tr paragraph catalog [] of
        None \<Rightarrow> None
      | Some segs \<Rightarrow>
          Some \<lparr> paragraphText = paragraph,
                 segments = sortSegments paragraph (plainPass pin tr paragraph 0 segs) \<rparr>)"

text \<open>\<open>paragraphs.map(callback)\<close> where the callback may not return.\<close>

fun mapOption :: "('a \<Rightarrow> 'b option) \<Rightarrow> 'a list \<Rightarrow> 'b list option" where
  "mapOption f [] = Some []"
| "mapOption f (x # xs) =
     (case f x of
        None \<Rightarrow> None
      | Some y \<Rightarrow> (case mapOption f xs of None \<Rightarrow> None | Some ys \<Rightarrow> Some (y # ys)))"

definition mockProcessText ::
    "lookup \<Rightarrow> lookup \<Rightarrow> jstring list \<Rightarrow> jstring \<Rightarrow> processed option" where
  "mockProcessText pin tr catalog text =
     (case mapOption (mockParagraph pin tr catalog) (splitParagraphs text) of
        None \<Rightarrow> None
      | Some processedParagraphs \<Rightarrow>
          Some \<lparr> original = text, paragraphs = processedParagraphs \<rparr>)"

definition mockProcessTextResponse :: "jstring \<Rightarrow> processed option" where
  "mockProcessTextResponse text =
     mockProcessText getMockPinyin getMockTranslation sampleChengyu text"

section \<open>The server pipeline (server/app.js)\<close>

text \<open>\<open>getPinyin\<close> and \<open>getTranslation\<close> return their placeholder from the \<open>try\<close>
  block; nothing in the block can throw, and the \<open>catch\<close> branch returns the same string.\<close>

definition getPinyin :: "jstring option \<Rightarrow> jstring" where
  "getPinyin text = [0x70, 0x12B, 0x6E, 0x79, 0x12B, 0x6E]"

definition getTranslation :: "jstring option \<Rightarrow> jstring" where
  "getTranslation text = [0x74, 0x72, 0x61, 0x6E, 0x73, 0x6C, 0x61, 0x74, 0x69, 0x6F, 0x6E]"

text \<open>The \<open>for ... of\<close> loop of \<open>checkIfChengyu\<close> over the idiom list.\<close>

fun chengyuStartsAt :: "jstring \<Rightarrow> nat \<Rightarrow> jstring list \<Rightarrow> bool" where
  "chengyuStartsAt text position [] = False"
| "chengyuStartsAt text position (chengyu # rest) =
     (if position + length chengyu \<le> length text then
        (if substring text position (position + length chengyu) = chengyu then True
         else chengyuStartsAt text position rest)
      else chengyuStartsAt text position rest)"

definition checkIfChengyu :: "jstring \<Rightarrow> nat \<Rightarrow> bool" where
  "checkIfChengyu text position = chengyuStartsAt text position sampleChengyu"

text \<open>The character loop of \<open>processChineseText\<close>, from index \<open>i\<close> on.\<close>

function serverSegments :: "jstring \<Rightarrow> nat \<Rightarrow> segment list \<Rightarrow> segment list" where
  "serverSegments paragraph i segs =
     (if i < length paragraph then
        serverSegments paragraph (i + 1)
          (segs @ [\<lparr> segText = charAt paragraph (int i),
                     pinyin = getPinyin (charAt paragraph (int i)),
                     translation = getTranslation (charAt paragraph (int i)),
                     isChengyu = checkIfChengyu paragraph i,
                     chengyuComplete = NoField \<rparr>])
      else segs)"
  by pat_completeness auto
termination
  by (relation "measure (\<lambda>(paragraph, i, segs). length paragraph - i)") auto

declare serverSegments.simps [simp del]

definition processChineseText :: "jstring \<Rightarrow> processed" where
  "processChineseText text =
     \<lparr> original = text,
       paragraphs = map (\<lambda>paragraph. \<lparr> paragraphText = paragraph,
                                       segments = serverSegments paragraph 0 [] \<rparr>)
                        (splitParagraphs text) \<rparr>"

text \<open>The handler of \<open>POST /api/process\<close>. The argument is \<open>req.body.text\<close>, a string
  or absent; \<open>!text\<close> holds for the absent and for the empty string. The answer is a
  status with a JSON body.\<close>

datatype responseBody = ErrorMessage jstring | Data processed

datatype response = Response nat responseBody

definition apiProcess :: "jstring option \<Rightarrow> response" where
  "apiProcess text =
     (case text of
        None \<Rightarrow> Response 400 (ErrorMessage [0x4E, 0x6F, 0x20, 0x74, 0x65, 0x78, 0x74, 0x20,
                                              0x70, 0x72, 0x6F, 0x76, 0x69, 0x64, 0x65, 0x64])
      | Some t \<Rightarrow>
          if t = [] then
            Response 400 (ErrorMessage [0x4E, 0x6F, 0x20, 0x74, 0x65, 0x78, 0x74, 0x20,
                                        0x70, 0x72, 0x6F, 0x76, 0x69, 0x64, 0x65, 0x64])
          else Response 200 (Data (processChineseText t)))"

section \<open>The client (\<open>processText\<close> of js/api.js)\<close>

text \<open>What the network does is an argument: \<open>fetch\<close> rejects, or it resolves with a
  response whose \<open>ok\<close> flag is given and whose \<open>json()\<close> either rejects (\<open>None\<close>) or
  yields a value. The \<open>try\<close> block ends in a thrown error or in the parsed value; the
  \<open>catch\<close> block answers every error with the mock.\<close>

datatype 'j fetchResult = FetchRejected | FetchResponse bool "'j option"

datatype thrown = FetchError | NotOkError | JsonError

datatype 'j clientResult = FromServer 'j | FromMock processed

definition tryFetch :: "'j fetchResult \<Rightarrow> thrown + 'j" where
  "tryFetch net =
     (case net of
        FetchRejected \<Rightarrow> Inl FetchError
      | FetchResponse ok parsed \<Rightarrow>
          if \<not> ok then Inl NotOkError
          else (case parsed of None \<Rightarrow> Inl JsonError | Some j \<Rightarrow> Inr j))"

definition processText :: "'j fetchResult \<Rightarrow> jstring \<Rightarrow> 'j clientResult option" where
  "processText net text =
     (case tryFetch net of
        Inr j \<Rightarrow> Some (FromServer j)
      | Inl error \<Rightarrow> map_option FromMock (mockProcessTextResponse text))"

section \<open>Notions used in the properties\<close>

subsection \<open>Paragraphs\<close>

text \<open>Pieces joined by single line feeds, and the test of the segmenter's filter: a
  piece is kept when it holds a character that is not whitespace.\<close>

fun joinLF :: "jstring list \<Rightarrow> jstring" where
  "joinLF [] = []"
| "joinLF [p] = p"
| "joinLF (p # q # ps) = p @ LF # joinLF (q # ps)"

definition nonBlank :: "jstring \<Rightarrow> bool" where
  "nonBlank p = (\<exists>c \<in> set p. \<not> isWhiteSpace c)"

subsection \<open>Tokens\<close>

text \<open>The concatenation of the \<open>text\<close> fields of a token sequence, as string
  concatenation in JavaScript gives it.\<close>

definition joinText :: "segment list \<Rightarrow> jstring" where
  "joinText segs = concat (map (\<lambda>s. toStr (segText s)) segs)"

text \<open>The segment that the server loop pushes at index \<open>i\<close>, and the one that the
  plain-character loop of the mock pushes at index \<open>i\<close> when it pushes one.\<close>

definition serverSegment :: "jstring \<Rightarrow> nat \<Rightarrow> segment" where
  "serverSegment paragraph i =
     \<lparr> segText = charAt paragraph (int i),
       pinyin = getPinyin (charAt paragraph (int i)),
       translation = getTranslation (charAt paragraph (int i)),
       isChengyu = checkIfChengyu paragraph i,
       chengyuComplete = NoField \<rparr>"

definition plainSegment :: "lookup \<Rightarrow> lookup \<Rightarrow> jstring \<Rightarrow> nat \<Rightarrow> segment" where
  "plainSegment pin tr paragraph i =
     \<lparr> segText = charAt paragraph (int i),
       pinyin = pin (charAt paragraph (int i)),
       translation = tr (charAt paragraph (int i)),
       isChengyu = False,
       chengyuComplete = NoField \<rparr>"

text \<open>A segment with its pinyin and translation looked up again from its text, and a
  function applied to every segment of a result.\<close>

definition relabel :: "lookup \<Rightarrow> lookup \<Rightarrow> segment \<Rightarrow> segment" where
  "relabel pin tr s = s\<lparr> pinyin := pin (segText s), translation := tr (segText s) \<rparr>"

definition mapSegments :: "(segment \<Rightarrow> segment) \<Rightarrow> processed \<Rightarrow> processed" where
  "mapSegments f r =
     r\<lparr> paragraphs := map (\<lambda>para. para\<lparr> segments := map f (segments para) \<rparr>) (paragraphs r) \<rparr>"

subsection \<open>Idiom spans\<close>

text \<open>A span is a start index with the idiom found there; it covers the positions
  \<open>startIdx + i\<close> for \<open>i\<close> below the idiom's length, the ones the marking loop reads.
  Two spans overlap when their index ranges intersect.\<close>

type_synonym span = "int \<times> jstring"




text \<open>The spans the mock accepts: the traversal of \<open>chengyuPass\<close>, recording for which
  pairs of \<open>startIdx\<close> and \<open>cy\<close> the marking loop runs, in that order (lemma
  \<open>chengyuPass_spans\<close> below); and the segments pushed for a list of spans.\<close>

fun matchedSpans :: "jstring \<Rightarrow> jstring list \<Rightarrow> span list option" where
  "matchedSpans paragraph [] = Some []"
| "matchedSpans paragraph (cy # rest) =
     (if includesStr paragraph cy then
        (case collectIndices paragraph cy (indexOf paragraph cy 0) [] of
           None \<Rightarrow> None
         | Some indices \<Rightarrow>
             map_option ((@) (map (\<lambda>startIdx. (startIdx, cy)) indices))
               (matchedSpans paragraph rest))
      else matchedSpans paragraph rest)"

definition markSpans :: "lookup \<Rightarrow> lookup \<Rightarrow> jstring \<Rightarrow> span list \<Rightarrow> segment list" where
  "markSpans pin tr p spans = concat (map (\<lambda>(startIdx, cy). markChengyu pin tr p cy startIdx) spans)"

text \<open>Every start index at which \<open>cy\<close> occurs in the paragraph, ascending, and every
  occurrence of every idiom of a catalog, idiom by idiom.\<close>

definition occurrences :: "jstring \<Rightarrow> jstring \<Rightarrow> nat list" where
  "occurrences p cy = filter (occursAt p cy) [0 ..< length p]"

definition allOccurrences :: "jstring list \<Rightarrow> jstring \<Rightarrow> span list" where
  "allOccurrences catalog p =
     concat (map (\<lambda>cy. map (\<lambda>k. (int k, cy)) (occurrences p cy)) catalog)"

text \<open>What the mock computes for a paragraph and for a text when every index loop
  ends (lemmas \<open>mockParagraph_Some\<close> and \<open>mockProcessText_Some\<close> below).\<close>

definition mockSegments :: "lookup \<Rightarrow> lookup \<Rightarrow> jstring list \<Rightarrow> jstring \<Rightarrow> segment list" where
  "mockSegments pin tr catalog p =
     sortSegments p (plainPass pin tr p 0 (markSpans pin tr p (allOccurrences catalog p)))"

definition mockResult :: "lookup \<Rightarrow> lookup \<Rightarrow> jstring list \<Rightarrow> jstring \<Rightarrow> processed" where
  "mockResult pin tr catalog s =
     \<lparr> original = s,
       paragraphs = map (\<lambda>p. \<lparr> paragraphText = p, segments = mockSegments pin tr catalog p \<rparr>)
                        (splitParagraphs s) \<rparr>"




subsection \<open>The matcher of the specification\<close>




section \<open>Basic facts\<close>

subsection \<open>The server loop\<close>

lemma serverSegments_eq:
  "serverSegments p i segs = segs @ map (serverSegment p) [i ..< length p]"
proof (induction p i segs rule: serverSegments.induct)
  case (1 para i segs)
  show ?case
  proof (cases "i < length para")
    case True
    then have "serverSegments para i segs
        = serverSegments para (i + 1) (segs @ [serverSegment para i])"
      by (subst serverSegments.simps) (simp add: serverSegment_def)
    also have "\<dots> = (segs @ [serverSegment para i]) @ map (serverSegment para) [i + 1 ..< length para]"
      using "1.IH" True by (simp add: serverSegment_def)
    finally show ?thesis using True by (simp add: upt_conv_Cons)
  next
    case False
    then show ?thesis by (subst serverSegments.simps) simp
  qed
qed

lemma charAt_nth: "i < length p \<Longrightarrow> charAt p (int i) = Some [p ! i]"
  by (simp add: charAt_def)

lemma concat_map_single: "concat (map (\<lambda>x. [x]) xs) = xs"
  by (induction xs) auto

lemma concat_singletons: "concat (map (\<lambda>i. [p ! i]) [0 ..< length p]) = p"
proof -
  have "map (\<lambda>i. [p ! i]) [0 ..< length p] = map (\<lambda>x. [x]) (map ((!) p) [0 ..< length p])"
    by simp
  then show ?thesis by (simp only: map_nth concat_map_single)
qed

lemma joinText_server: "joinText (serverSegments p 0 []) = p"
proof -
  have "map (\<lambda>s. toStr (segText s)) (map (serverSegment p) [0 ..< length p])
      = map (\<lambda>i. [p ! i]) [0 ..< length p]"
    by (simp add: serverSegment_def charAt_nth toStr_def)
  then have "joinText (serverSegments p 0 []) = concat (map (\<lambda>i. [p ! i]) [0 ..< length p])"
    by (simp only: joinText_def serverSegments_eq append_Nil)
  then show ?thesis by (simp only: concat_singletons)
qed

lemma server_round_trip:
  "para \<in> set (paragraphs (processChineseText text)) \<Longrightarrow> joinText (segments para) = paragraphText para"
  by (auto simp: processChineseText_def joinText_server)

subsection \<open>\<open>indexOf\<close> and the index loop\<close>

lemma indexOf_nat:
  "indexOf p cy (int start) =
     (case find (occursAt p cy) [min start (length p) ..< Suc (length p)] of None \<Rightarrow> - 1 | Some k \<Rightarrow> int k)"
  by (simp add: indexOf_def)

lemma indexOf_hit: "start \<le> length p \<Longrightarrow> occursAt p cy start \<Longrightarrow> indexOf p cy (int start) = int start"
  by (simp add: indexOf_nat upt_conv_Cons min_def del: upt_Suc)

lemma indexOf_miss:
  "start < length p \<Longrightarrow> \<not> occursAt p cy start \<Longrightarrow> indexOf p cy (int start) = indexOf p cy (int (Suc start))"
  by (simp only: indexOf_nat) (simp add: upt_conv_Cons min_def del: upt_Suc)

lemma occursAt_end: "cy \<noteq> [] \<Longrightarrow> length p \<le> k \<Longrightarrow> \<not> occursAt p cy k"
  by (auto simp: occursAt_def)

lemma indexOf_end: "cy \<noteq> [] \<Longrightarrow> length p \<le> start \<Longrightarrow> indexOf p cy (int start) = - 1"
  by (simp add: indexOf_nat min_def occursAt_end)

lemma collectIndices_from:
  "cy \<noteq> [] \<Longrightarrow>
   collectIndices p cy (indexOf p cy (int start)) acc
     = Some (acc @ map int (filter (occursAt p cy) [start ..< length p]))"
proof (induction "length p - start" arbitrary: start acc)
  case 0
  then have "length p \<le> start" by simp
  then show ?case using 0
    by (subst collectIndices.simps) (simp add: indexOf_end)
next
  case (Suc n)
  then have lt: "start < length p" by simp
  have step: "length p - Suc start = n" using Suc.hyps(2) by simp
  show ?case
  proof (cases "occursAt p cy start")
    case True
    have "collectIndices p cy (indexOf p cy (int start)) acc
        = collectIndices p cy (indexOf p cy (int (Suc start))) (acc @ [int start])"
      using lt True by (subst collectIndices.simps) (simp add: indexOf_hit add.commute)
    also have "\<dots> = Some ((acc @ [int start]) @ map int (filter (occursAt p cy) [Suc start ..< length p]))"
      using Suc.hyps(1)[OF step[symmetric] Suc.prems] .
    finally show ?thesis using lt True by (simp add: upt_conv_Cons)
  next
    case False
    have "collectIndices p cy (indexOf p cy (int start)) acc
        = collectIndices p cy (indexOf p cy (int (Suc start))) acc"
      using lt False by (simp add: indexOf_miss)
    also have "\<dots> = Some (acc @ map int (filter (occursAt p cy) [Suc start ..< length p]))"
      using Suc.hyps(1)[OF step[symmetric] Suc.prems] .
    finally show ?thesis using lt False by (simp add: upt_conv_Cons)
  qed
qed

lemma collectIndices_all:
  "cy \<noteq> [] \<Longrightarrow> collectIndices p cy (indexOf p cy 0) [] = Some (map int (occurrences p cy))"
  using collectIndices_from[of cy p 0 "[]"] by (simp add: occurrences_def)


lemma markSpans_append [simp]:
  "markSpans pin tr p (xs @ ys) = markSpans pin tr p xs @ markSpans pin tr p ys"
  by (simp add: markSpans_def)

lemma markSpans_Nil [simp]: "markSpans pin tr p [] = []"
  by (simp add: markSpans_def)

lemma markSpans_one_idiom:
  "markSpans pin tr p (map (\<lambda>startIdx. (startIdx, cy)) indices)
     = concat (map (markChengyu pin tr p cy) indices)"
  by (simp add: markSpans_def comp_def)

lemma chengyuPass_spans:
  "chengyuPass pin tr p catalog segs
     = map_option (\<lambda>spans. segs @ markSpans pin tr p spans) (matchedSpans p catalog)"
proof (induction catalog arbitrary: segs)
  case Nil
  then show ?case by simp
next
  case (Cons cy rest)
  show ?case
  proof (cases "includesStr p cy")
    case False
    then show ?thesis using Cons.IH by simp
  next
    case True
    show ?thesis
    proof (cases "collectIndices p cy (indexOf p cy 0) []")
      case None
      then show ?thesis using True by simp
    next
      case (Some indices)
      then show ?thesis using True Cons.IH
        by (simp add: option.map_comp comp_def markSpans_one_idiom)
    qed
  qed
qed

lemma not_includes_no_occurrence:
  assumes "cy \<noteq> []" and "\<not> includesStr p cy"
  shows "occurrences p cy = []"
proof -
  have "indexOf p cy 0 = - 1" using assms(2) by (simp add: includesStr_def)
  then have "collectIndices p cy (indexOf p cy 0) [] = Some []"
    by (subst collectIndices.simps) simp
  then show ?thesis using collectIndices_all[OF assms(1), of p] by simp
qed

lemma matchedSpans_occurrences:
  "\<forall>cy \<in> set catalog. cy \<noteq> [] \<Longrightarrow> matchedSpans p catalog = Some (allOccurrences catalog p)"
proof (induction catalog)
  case Nil
  then show ?case by (simp add: allOccurrences_def)
next
  case (Cons cy rest)
  then have ne: "cy \<noteq> []" and IH: "matchedSpans p rest = Some (allOccurrences rest p)"
    by simp_all
  show ?case
  proof (cases "includesStr p cy")
    case True
    then show ?thesis using IH collectIndices_all[OF ne, of p]
      by (simp add: allOccurrences_def comp_def)
  next
    case False
    then show ?thesis using IH not_includes_no_occurrence[OF ne False]
      by (simp add: allOccurrences_def)
  qed
qed

lemma plainPass_eq:
  "plainPass pin tr p i segs
     = segs @ map (plainSegment pin tr p)
         (filter (\<lambda>j. \<not> (\<exists>s \<in> set segs. segText s = charAt p (int j) \<and> isChengyu s)) [i ..< length p])"
proof (induction pin tr p i segs rule: plainPass.induct)
  case (1 pin tr p i segs)
  let ?skip = "\<lambda>sg j. \<exists>s \<in> set sg. segText s = charAt p (int j) \<and> isChengyu s"
  show ?case
  proof (cases "i < length p")
    case False
    then show ?thesis by (subst plainPass.simps) simp
  next
    case lt: True
    show ?thesis
    proof (cases "?skip segs i")
      case True
      then have "plainPass pin tr p i segs = plainPass pin tr p (i + 1) segs"
        using lt by (subst plainPass.simps) simp
      then show ?thesis using "1.IH"(1)[OF lt True] lt True by (simp add: upt_conv_Cons)
    next
      case False
      let ?new = "segs @ [plainSegment pin tr p i]"
      have same: "?skip ?new j = ?skip segs j" for j
        by (auto simp: plainSegment_def)
      have "plainPass pin tr p i segs = plainPass pin tr p (i + 1) ?new"
        unfolding plainSegment_def
        by (subst plainPass.simps) (simp only: lt False if_True if_False)
      also have "\<dots> = ?new @ map (plainSegment pin tr p)
          (filter (\<lambda>j. \<not> ?skip ?new j) [i + 1 ..< length p])"
        using "1.IH"(2)[OF lt False] by (simp add: plainSegment_def)
      finally show ?thesis using lt False by (simp add: upt_conv_Cons same del: set_append)
    qed
  qed
qed

subsection \<open>Splitting into paragraphs\<close>

lemma dropWhile_all_Nil: "(\<forall>x \<in> set (dropWhile P xs). P x) \<longleftrightarrow> dropWhile P xs = []"
proof
  assume all: "\<forall>x \<in> set (dropWhile P xs). P x"
  show "dropWhile P xs = []"
  proof (rule ccontr)
    assume ne: "dropWhile P xs \<noteq> []"
    then have "\<not> P (hd (dropWhile P xs))" by (rule hd_dropWhile)
    moreover have "hd (dropWhile P xs) \<in> set (dropWhile P xs)" using ne by simp
    ultimately show False using all by blast
  qed
next
  assume "dropWhile P xs = []"
  then show "\<forall>x \<in> set (dropWhile P xs). P x" by (simp only: list.set ball_empty)
qed

lemma trim_empty_iff: "trim p = [] \<longleftrightarrow> (\<forall>c \<in> set p. isWhiteSpace c)"
  by (simp add: trim_def dropWhile_all_Nil)

lemma kept_iff_nonBlank: "trim p \<noteq> [] \<longleftrightarrow> nonBlank p"
  by (simp add: trim_empty_iff nonBlank_def)

lemma splitParagraphs_nonBlank: "splitParagraphs s = filter nonBlank (splitNewlines [] s)"
  by (simp add: splitParagraphs_def kept_iff_nonBlank)

lemma LF_isWhiteSpace: "isWhiteSpace LF"
  by (simp add: isWhiteSpace_def LF_def)

lemma not_nonBlank_Nil [simp]: "\<not> nonBlank []"
  by (simp add: nonBlank_def)

lemma splitNewlines_piece:
  "LF \<notin> set p \<Longrightarrow> splitNewlines acc (p @ rest) = splitNewlines (acc @ p) rest"
  by (induction p arbitrary: acc) auto

lemma splitNewlines_skip_run:
  "filter nonBlank (splitNewlines [] (dropWhile (\<lambda>x. x = LF) s))
     = filter nonBlank (splitNewlines [] s)"
  by (cases s) auto

lemma splitNewlines_join:
  "ps \<noteq> [] \<Longrightarrow> \<forall>p \<in> set ps. LF \<notin> set p \<Longrightarrow>
   filter nonBlank (splitNewlines acc (joinLF ps)) = filter nonBlank ((acc @ hd ps) # tl ps)"
proof (induction ps arbitrary: acc rule: joinLF.induct)
  case 1
  then show ?case by simp
next
  case (2 p)
  then show ?case using splitNewlines_piece[of p acc "[]"] by simp
next
  case (3 p q ps)
  let ?J = "joinLF (q # ps)"
  have "splitNewlines acc (joinLF (p # q # ps)) = splitNewlines (acc @ p) (LF # ?J)"
    using "3.prems" splitNewlines_piece[of p acc "LF # ?J"] by simp
  then have "splitNewlines acc (joinLF (p # q # ps))
      = (acc @ p) # splitNewlines [] (dropWhile (\<lambda>x. x = LF) ?J)"
    by simp
  then have "filter nonBlank (splitNewlines acc (joinLF (p # q # ps)))
      = filter nonBlank [acc @ p] @ filter nonBlank (splitNewlines [] ?J)"
    by (simp only: filter.simps splitNewlines_skip_run) simp
  also have "filter nonBlank (splitNewlines [] ?J) = filter nonBlank (q # ps)"
    using "3.IH"[of "[]"] "3.prems" by simp
  finally show ?case by simp
qed

lemma splitParagraphs_join:
  assumes "\<forall>p \<in> set ps. LF \<notin> set p"
  shows "splitParagraphs (joinLF ps) = filter nonBlank ps"
proof (cases ps)
  case Nil
  then show ?thesis by (simp add: splitParagraphs_nonBlank)
next
  case (Cons p rest)
  then show ?thesis
    using splitNewlines_join[of ps "[]"] assms by (simp add: splitParagraphs_nonBlank)
qed

lemma text_is_join: "\<exists>ps. ps \<noteq> [] \<and> s = joinLF ps \<and> (\<forall>p \<in> set ps. LF \<notin> set p)"
proof (induction s)
  case Nil
  show ?case by (rule exI[of _ "[ [] ]"]) simp
next
  case (Cons c s)
  then obtain ps where ps: "ps \<noteq> []" "s = joinLF ps" "\<forall>p \<in> set ps. LF \<notin> set p"
    by blast
  then obtain p rest where pr: "ps = p # rest" by (cases ps) auto
  show ?case
  proof (cases "c = LF")
    case True
    show ?thesis
      by (rule exI[of _ "[] # ps"]) (use ps pr True in simp)
  next
    case False
    have "joinLF ((c # p) # rest) = c # joinLF (p # rest)"
      by (cases rest) simp_all
    then show ?thesis
      using ps pr False by (intro exI[of _ "(c # p) # rest"]) simp
  qed
qed

lemma splitNewlines_chars:
  "piece' \<in> set (splitNewlines piece s) \<Longrightarrow> set piece' \<subseteq> set piece \<union> set s"
proof (induction piece s rule: splitNewlines.induct)
  case (1 piece)
  then show ?case by simp
next
  case (2 piece c cs)
  show ?case
  proof (cases "c = LF")
    case True
    then have "piece' = piece \<or> piece' \<in> set (splitNewlines [] (dropWhile (\<lambda>x. x = LF) cs))"
      using "2.prems" by simp
    then show ?thesis
    proof
      assume "piece' = piece" then show ?thesis by auto
    next
      assume "piece' \<in> set (splitNewlines [] (dropWhile (\<lambda>x. x = LF) cs))"
      then have "set piece' \<subseteq> set (dropWhile (\<lambda>x. x = LF) cs)"
        using "2.IH"(1)[OF True] by simp
      then show ?thesis using set_dropWhileD by fastforce
    qed
  next
    case False
    then show ?thesis using "2.IH"(2)[OF False] "2.prems" by auto
  qed
qed

lemma splitParagraphs_chars:
  "p \<in> set (splitParagraphs s) \<Longrightarrow> set p \<subseteq> set s"
  using splitNewlines_chars[of p "[]" s] by (simp add: splitParagraphs_def)

lemma splitParagraphs_blank:
  assumes "\<forall>c \<in> set s. isWhiteSpace c"
  shows "splitParagraphs s = []"
proof -
  have "\<not> nonBlank p" if "p \<in> set (splitNewlines [] s)" for p
    using splitNewlines_chars[OF that] assms by (auto simp: nonBlank_def)
  then show ?thesis by (simp add: splitParagraphs_nonBlank filter_empty_conv)
qed

subsection \<open>The mock returns\<close>

lemma sampleChengyu_nonempty: "\<forall>cy \<in> set sampleChengyu. cy \<noteq> []"
  by (simp add: sampleChengyu_def)

lemma mockParagraph_Some:
  "\<forall>cy \<in> set catalog. cy \<noteq> [] \<Longrightarrow>
   mockParagraph pin tr catalog p
     = Some \<lparr> paragraphText = p, segments = mockSegments pin tr catalog p \<rparr>"
  by (simp add: mockParagraph_def chengyuPass_spans matchedSpans_occurrences mockSegments_def)

lemma mapOption_Some: "(\<And>x. x \<in> set xs \<Longrightarrow> f x = Some (g x)) \<Longrightarrow> mapOption f xs = Some (map g xs)"
  by (induction xs) simp_all

lemma mockProcessText_Some:
  "\<forall>cy \<in> set catalog. cy \<noteq> [] \<Longrightarrow>
   mockProcessText pin tr catalog s = Some (mockResult pin tr catalog s)"
  by (simp add: mockProcessText_def mockResult_def mapOption_Some[OF mockParagraph_Some])

lemma mockProcessTextResponse_Some:
  "mockProcessTextResponse s = Some (mockResult getMockPinyin getMockTranslation sampleChengyu s)"
  by (simp add: mockProcessTextResponse_def mockProcessText_Some sampleChengyu_nonempty)

subsection \<open>The lexicon only labels the tokens\<close>

lemma relabel_fields [simp]:
  "segText (relabel pin tr s) = segText s"
  "isChengyu (relabel pin tr s) = isChengyu s"
  "pinyin (relabel pin tr s) = pin (segText s)"
  "translation (relabel pin tr s) = tr (segText s)"
  by (simp_all add: relabel_def)

lemma markChengyu_relabel:
  "markChengyu pin' tr' p cy k = map (relabel pin' tr') (markChengyu pin tr p cy k)"
  by (simp add: markChengyu_def relabel_def)

lemma markSpans_relabel:
  "markSpans pin' tr' p spans = map (relabel pin' tr') (markSpans pin tr p spans)"
  by (induction spans) (auto simp: markSpans_def markChengyu_relabel[of pin' tr' _ _ _ pin tr])

lemma plainSegment_relabel:
  "plainSegment pin' tr' p i = relabel pin' tr' (plainSegment pin tr p i)"
  by (simp add: plainSegment_def relabel_def)

lemma plainPass_relabel:
  "plainPass pin' tr' p 0 (map (relabel pin' tr') segs)
     = map (relabel pin' tr') (plainPass pin tr p 0 segs)"
proof -
  have "(\<exists>s \<in> set (map (relabel pin' tr') segs). segText s = c \<and> isChengyu s)
      \<longleftrightarrow> (\<exists>s \<in> set segs. segText s = c \<and> isChengyu s)" for c
    by auto
  then show ?thesis
    by (simp only: plainPass_eq map_append map_map comp_def
        plainSegment_relabel[of pin' tr' _ _ pin tr, symmetric])
qed

lemma insort_key_map:
  "(\<And>y. f (g y) = f y) \<Longrightarrow> insort_key f (g x) (map g xs) = map g (insort_key f x xs)"
  by (induction xs) auto

lemma sort_key_map:
  "(\<And>y. f (g y) = f y) \<Longrightarrow> sort_key f (map g xs) = map g (sort_key f xs)"
  by (induction xs) (simp_all add: insort_key_map)

lemma sortSegments_relabel:
  "sortSegments p (map (relabel pin tr) segs) = map (relabel pin tr) (sortSegments p segs)"
  by (simp add: sortSegments_def sort_key_map)

lemma mockParagraph_relabel:
  "mockParagraph pin' tr' catalog p
     = map_option (\<lambda>para. para\<lparr> segments := map (relabel pin' tr') (segments para) \<rparr>)
         (mockParagraph pin tr catalog p)"
proof (cases "matchedSpans p catalog")
  case None
  then show ?thesis by (simp add: mockParagraph_def chengyuPass_spans)
next
  case (Some spans)
  have "sortSegments p (plainPass pin' tr' p 0 (markSpans pin' tr' p spans))
      = map (relabel pin' tr') (sortSegments p (plainPass pin tr p 0 (markSpans pin tr p spans)))"
    by (simp only: markSpans_relabel[of pin' tr' p spans pin tr]
        plainPass_relabel[of pin' tr' p _ pin tr] sortSegments_relabel)
  then show ?thesis using Some by (simp add: mockParagraph_def chengyuPass_spans)
qed

lemma mockParagraph_labels:
  assumes "mockParagraph pin tr catalog p = Some para" and "sg \<in> set (segments para)"
  shows "pinyin sg = pin (segText sg) \<and> translation sg = tr (segText sg)"
proof -
  have "Some para = map_option (\<lambda>para. para\<lparr> segments := map (relabel pin tr) (segments para) \<rparr>)
      (Some para)"
    using mockParagraph_relabel[of pin tr catalog p pin tr] assms(1) by simp
  then have "segments para = map (relabel pin tr) (segments para)"
    by (cases para) simp
  then obtain sg' where "sg = relabel pin tr sg'"
    using assms(2) by (metis imageE list.set_map)
  then show ?thesis by simp
qed

lemma occursAt_nth:
  assumes "occursAt p cy k" and "i < length cy"
  shows "k + i < length p \<and> p ! (k + i) = cy ! i"
proof -
  have eq: "take (length cy) (drop k p) = cy" using assms(1) by (simp add: occursAt_def)
  have "length (take (length cy) (drop k p)) = length cy" by (simp only: eq)
  then have "length cy \<le> length p - k" by simp
  then have lt: "k + i < length p" using assms(2) by simp
  have "cy ! i = take (length cy) (drop k p) ! i" using eq by simp
  also have "\<dots> = p ! (k + i)" using assms(2) lt by simp
  finally show ?thesis using lt by simp
qed

lemma indexOf_sound:
  "indexOf p cy position = - 1 \<or> (0 \<le> indexOf p cy position \<and> occursAt p cy (nat (indexOf p cy position)))"
proof (cases "find (occursAt p cy) [min (nat (max position 0)) (length p) ..< Suc (length p)]")
  case None
  then show ?thesis by (simp add: indexOf_def)
next
  case (Some k)
  then have "occursAt p cy k" by (auto simp: find_Some_iff)
  then show ?thesis using Some by (simp add: indexOf_def)
qed

lemma collectIndices_sound:
  assumes run: "collectIndices p cy index indices = Some res"
    and start: "index = - 1 \<or> (0 \<le> index \<and> occursAt p cy (nat index))"
    and acc: "\<forall>k \<in> set indices. 0 \<le> k \<and> occursAt p cy (nat k)"
  shows "\<forall>k \<in> set res. 0 \<le> k \<and> occursAt p cy (nat k)"
proof -
  let ?P = "\<lambda>p cy index indices res.
    (index = - 1 \<or> (0 \<le> index \<and> occursAt p cy (nat index))) \<longrightarrow>
    (\<forall>k \<in> set indices. 0 \<le> k \<and> occursAt p cy (nat k)) \<longrightarrow>
    (\<forall>k \<in> set res. 0 \<le> k \<and> occursAt p cy (nat k))"
  have "?P p cy index indices res"
  proof (rule collectIndices.raw_induct[where P = ?P, OF _ run])
    fix f p cy index indices res
    assume IH: "\<And>a b c d y. f a b c d = Some y \<Longrightarrow> ?P a b c d y"
      and eq: "(if index \<noteq> - 1
                then f p cy (indexOf p cy (index + 1)) (indices @ [index])
                else Some indices) = Some res"
    show "?P p cy index indices res"
    proof (cases "index = - 1")
      case True
      then have "res = indices" using eq by simp
      then show ?thesis by blast
    next
      case False
      then have call: "f p cy (indexOf p cy (index + 1)) (indices @ [index]) = Some res"
        using eq by simp
      show ?thesis
      proof (intro impI)
        assume "index = - 1 \<or> (0 \<le> index \<and> occursAt p cy (nat index))"
          and old: "\<forall>k \<in> set indices. 0 \<le> k \<and> occursAt p cy (nat k)"
        then have "0 \<le> index \<and> occursAt p cy (nat index)" using False by blast
        then have "\<forall>k \<in> set (indices @ [index]). 0 \<le> k \<and> occursAt p cy (nat k)"
          using old by simp
        then show "\<forall>k \<in> set res. 0 \<le> k \<and> occursAt p cy (nat k)"
          using IH[OF call] indexOf_sound[of p cy "index + 1"] by blast
      qed
    qed
  qed
  then show ?thesis using start acc by blast
qed

lemma matchedSpans_sound:
  "matchedSpans p catalog = Some spans \<Longrightarrow>
   \<forall>(k, cy) \<in> set spans. 0 \<le> k \<and> occursAt p cy (nat k)"
proof (induction catalog arbitrary: spans)
  case Nil
  then show ?case by simp
next
  case (Cons cy rest)
  show ?case
  proof (cases "includesStr p cy")
    case False
    then show ?thesis using Cons by simp
  next
    case True
    then have step: "(case collectIndices p cy (indexOf p cy 0) [] of
          None \<Rightarrow> None
        | Some indices \<Rightarrow> map_option ((@) (map (\<lambda>startIdx. (startIdx, cy)) indices))
                            (matchedSpans p rest)) = Some spans"
      using Cons.prems by simp
    then obtain indices where run: "collectIndices p cy (indexOf p cy 0) [] = Some indices"
      by (cases "collectIndices p cy (indexOf p cy 0) []") simp_all
    then obtain spans' where rest: "matchedSpans p rest = Some spans'"
      and spans: "spans = map (\<lambda>startIdx. (startIdx, cy)) indices @ spans'"
      using step by (cases "matchedSpans p rest") auto
    have "\<forall>k \<in> set indices. 0 \<le> k \<and> occursAt p cy (nat k)"
      using collectIndices_sound[OF run indexOf_sound] by simp
    then have "\<forall>(k, c) \<in> set (map (\<lambda>startIdx. (startIdx, cy)) indices). 0 \<le> k \<and> occursAt p c (nat k)"
      by simp
    then show ?thesis using Cons.IH[OF rest] spans by (simp add: ball_Un)
  qed
qed

lemma set_sortSegments [simp]: "set (sortSegments p segs) = set segs"
  by (simp add: sortSegments_def)

lemma markChengyu_texts:
  assumes "0 \<le> k" and "occursAt p cy (nat k)" and "sg \<in> set (markChengyu pin tr p cy k)"
  shows "\<exists>c \<in> set p. segText sg = Some [c]"
proof -
  obtain i where i: "i < length cy" and sg: "segText sg = charAt p (k + int i)"
    using assms(3) by (auto simp: markChengyu_def)
  have "nat k + i < length p" using occursAt_nth[OF assms(2) i] by simp
  then have "charAt p (k + int i) = Some [p ! (nat k + i)]" and "p ! (nat k + i) \<in> set p"
    using assms(1) by (simp_all add: charAt_def nat_add_distrib)
  then show ?thesis using sg by auto
qed

lemma markSpans_texts:
  assumes "\<forall>(k, cy) \<in> set spans. 0 \<le> k \<and> occursAt p cy (nat k)"
    and "sg \<in> set (markSpans pin tr p spans)"
  shows "\<exists>c \<in> set p. segText sg = Some [c]"
proof -
  obtain k cy where "(k, cy) \<in> set spans" and "sg \<in> set (markChengyu pin tr p cy k)"
    using assms(2) by (auto simp: markSpans_def)
  then show ?thesis using assms(1) markChengyu_texts[of k p cy sg pin tr] by auto
qed

lemma plainSegment_text:
  "i < length p \<Longrightarrow> \<exists>c \<in> set p. segText (plainSegment pin tr p i) = Some [c]"
  by (simp add: plainSegment_def charAt_def)

lemma mockParagraph_texts:
  assumes "mockParagraph pin tr catalog p = Some para" and "sg \<in> set (segments para)"
  shows "\<exists>c \<in> set p. segText sg = Some [c]"
proof -
  obtain spans where spans: "matchedSpans p catalog = Some spans"
    and para: "segments para = sortSegments p (plainPass pin tr p 0 (markSpans pin tr p spans))"
    using assms(1) by (auto simp: mockParagraph_def chengyuPass_spans split: option.splits)
  then have "sg \<in> set (markSpans pin tr p spans) \<or> (\<exists>i < length p. sg = plainSegment pin tr p i)"
    using assms(2) by (auto simp: plainPass_eq)
  then show ?thesis
    using markSpans_texts[OF matchedSpans_sound [OF spans] ] plainSegment_text by blast
qed

lemma relabel_same:
  "pinyin sg = pin (segText sg) \<Longrightarrow> translation sg = tr (segText sg) \<Longrightarrow> relabel pin tr sg = sg"
  by (simp add: relabel_def)

lemma mockParagraph_agree:
  assumes "\<forall>c \<in> set p. pin (Some [c]) = pin' (Some [c]) \<and> tr (Some [c]) = tr' (Some [c])"
  shows "mockParagraph pin tr catalog p = mockParagraph pin' tr' catalog p"
proof (cases "mockParagraph pin tr catalog p")
  case None
  then show ?thesis using mockParagraph_relabel[of pin' tr' catalog p pin tr] by simp
next
  case (Some para)
  have "relabel pin' tr' sg = sg" if mem: "sg \<in> set (segments para)" for sg
  proof -
    obtain c where "c \<in> set p" and "segText sg = Some [c]"
      using mockParagraph_texts[OF Some mem] by blast
    then show ?thesis
      using mockParagraph_labels[OF Some mem] assms by (simp add: relabel_same)
  qed
  then have "map (relabel pin' tr') (segments para) = segments para"
    by (simp add: map_idI)
  then show ?thesis using Some mockParagraph_relabel[of pin' tr' catalog p pin tr] by simp
qed

lemma mapOption_cong: "\<forall>x \<in> set xs. f x = g x \<Longrightarrow> mapOption f xs = mapOption g xs"
  by (induction xs) (simp_all cong: option.case_cong)

lemma mapOption_map_option:
  "mapOption (\<lambda>x. map_option h (f x)) xs = map_option (map h) (mapOption f xs)"
  by (induction xs) (simp_all split: option.splits)

lemma mapOption_result:
  "mapOption f xs = Some ys \<Longrightarrow> y \<in> set ys \<Longrightarrow> \<exists>x \<in> set xs. f x = Some y"
  by (induction xs arbitrary: ys) (auto split: option.splits)

lemma mockProcessText_relabel:
  "mockProcessText pin' tr' catalog s
     = map_option (mapSegments (relabel pin' tr')) (mockProcessText pin tr catalog s)"
proof -
  have "mockParagraph pin' tr' catalog
      = (\<lambda>p. map_option (\<lambda>para. para\<lparr> segments := map (relabel pin' tr') (segments para) \<rparr>)
                (mockParagraph pin tr catalog p))"
    using mockParagraph_relabel[of pin' tr' catalog _ pin tr] by blast
  then show ?thesis
    by (simp add: mockProcessText_def mapOption_map_option mapSegments_def split: option.splits)
qed

lemma mockProcessText_labels:
  assumes "mockProcessText pin tr catalog s = Some r"
    and "para \<in> set (paragraphs r)" and "sg \<in> set (segments para)"
  shows "pinyin sg = pin (segText sg) \<and> translation sg = tr (segText sg)"
proof -
  obtain paras where run: "mapOption (mockParagraph pin tr catalog) (splitParagraphs s) = Some paras"
    and r: "paragraphs r = paras"
    using assms(1) by (auto simp: mockProcessText_def split: option.splits)
  then obtain p where "mockParagraph pin tr catalog p = Some para"
    using mapOption_result[OF run] assms(2) by blast
  then show ?thesis using mockParagraph_labels assms(3) by blast
qed

lemma mapSegments_cong:
  "(\<And>para sg. para \<in> set (paragraphs r) \<Longrightarrow> sg \<in> set (segments para) \<Longrightarrow> f sg = g sg) \<Longrightarrow>
   mapSegments f r = mapSegments g r"
  by (simp add: mapSegments_def)

subsection \<open>Occurrences of the built-in idioms never overlap\<close>






lemma allOccurrences_Nil [simp]: "allOccurrences [] p = []"
  by (simp add: allOccurrences_def)






subsection \<open>The positions the tokens are read from\<close>















subsection \<open>The leftmost-longest policy on spans that lie apart\<close>





subsection \<open>The tokens of one idiom occurrence in the mock\<close>

lemma markChengyu_shape:
  "length (markChengyu pin tr p cy k) = length cy \<and>
   (\<forall>i < length cy.
      isChengyu (markChengyu pin tr p cy k ! i) \<and>
      segText (markChengyu pin tr p cy k ! i) = charAt p (k + int i) \<and>
      chengyuComplete (markChengyu pin tr p cy k ! i)
        = (if Suc i = length cy then Idiom cy else NullValue))"
  by (auto simp: markChengyu_def)

subsection \<open>Idiom tokens and labels of the output\<close>







lemma server_labels:
  assumes "para \<in> set (paragraphs (processChineseText s))" and "sg \<in> set (segments para)"
  shows "pinyin sg = getPinyin (segText sg) \<and> translation sg = getTranslation (segText sg)"
proof -
  obtain p where "segments para = serverSegments p 0 []"
    using assms(1) by (auto simp: processChineseText_def)
  then obtain i where "sg = serverSegment p i"
    using assms(2) by (auto simp: serverSegments_eq)
  then show ?thesis by (simp add: serverSegment_def)
qed

lemma mockProcessText_texts:
  assumes "mockProcessText pin tr catalog s = Some r"
    and "para \<in> set (paragraphs r)" and "sg \<in> set (segments para)"
  shows "\<exists>c \<in> set s. segText sg = Some [c]"
proof -
  obtain paras where run: "mapOption (mockParagraph pin tr catalog) (splitParagraphs s) = Some paras"
    and r: "paragraphs r = paras"
    using assms(1) by (auto simp: mockProcessText_def split: option.splits)
  then obtain p where p: "p \<in> set (splitParagraphs s)" and para: "mockParagraph pin tr catalog p = Some para"
    using mapOption_result[OF run] assms(2) by blast
  then obtain c where "c \<in> set p" and "segText sg = Some [c]"
    using mockParagraph_texts[OF para assms(3)] by blast
  then show ?thesis using splitParagraphs_chars[OF p] by blast
qed

section \<open>Round trip (C1)\<close>

text \<open>
  C1. Concatenating the \<open>text\<close> fields of a paragraph's tokens in output order should
  give back the paragraph. The mock pipeline does not: its final sort orders the tokens by
  the first index of their character value, so for the paragraph U+4EBA U+4E0D U+662F
  U+4EBA, where U+4EBA repeats, the four tokens come out as U+4EBA U+4EBA U+4E0D U+662F.
  (The server pipeline keeps the order, see \<open>server_round_trip\<close>.)
\<close>

theorem mock_round_trip_broken_by_repeat:
  "map_option (\<lambda>r. map (\<lambda>p. (paragraphText p, joinText (segments p))) (paragraphs r))
     (mockProcessTextResponse [0x4EBA, 0x4E0D, 0x662F, 0x4EBA])
   = Some [([0x4EBA, 0x4E0D, 0x662F, 0x4EBA], [0x4EBA, 0x4EBA, 0x4E0D, 0x662F])]"
  by code_simp

section \<open>No double processing (C2)\<close>



section \<open>Overlap resolution (C3)\<close>



section \<open>Idiom tokens (C4)\<close>

text \<open>
  C4. Every character of a matched idiom should be flagged as an idiom member, the
  non-initial ones like the first. The server pipeline flags only the position at which
  an idiom starts: for the paragraph U+4E00 U+5FC3 U+4E00 U+610F, which is the first
  idiom of the list, the flags of the four tokens are true, false, false, false.
  (The mock flags every character of an occurrence and gives the idiom to the last
  one, see \<open>markChengyu_shape\<close>.)
\<close>

theorem server_flags_only_idiom_start:
  "map (\<lambda>p. map isChengyu (segments p))
       (paragraphs (processChineseText [0x4E00, 0x5FC3, 0x4E00, 0x610F]))
   = [ [True, False, False, False] ]"
  by code_simp

section \<open>Segmentation (C5)\<close>

text \<open>
  C5, as amended. Every text is a sequence of pieces free of line feeds, joined by single
  line feeds (an empty piece between two line feeds of a run). The segmenter returns
  exactly the pieces that hold a non-whitespace character, in their order and unchanged:
  a kept paragraph holds no line feed, and it keeps its leading and trailing whitespace
  as well as its interior whitespace. It is not trimmed; \<open>trim\<close> only decides whether a
  piece is kept.
\<close>

theorem segmenter_keeps_whole_pieces:
  "(\<exists>ps. s = joinLF ps \<and> (\<forall>p \<in> set ps. LF \<notin> set p)) \<and>
   (\<forall>ps. (\<forall>p \<in> set ps. LF \<notin> set p) \<longrightarrow> splitParagraphs (joinLF ps) = filter nonBlank ps)"
  using text_is_join[of s] splitParagraphs_join by blast

theorem segmenter_keeps_whole_pieces_witness:
  "splitParagraphs [0x20, 0x61, 0x20, 0x62, 0x20, 0xA, 0xA, 0x9, 0xA, 0x63]
     = [ [0x20, 0x61, 0x20, 0x62, 0x20], [0x63] ]"
proof -
  let ?ps = "[ [0x20, 0x61, 0x20, 0x62, 0x20], [], [0x9], [0x63] ] :: jstring list"
  have free: "\<forall>p \<in> set ?ps. LF \<notin> set p" by (simp add: LF_def)
  have "(\<forall>p \<in> set ?ps. LF \<notin> set p) \<longrightarrow> splitParagraphs (joinLF ?ps) = filter nonBlank ?ps"
    using segmenter_keeps_whole_pieces[of "[]"] by blast
  then have "splitParagraphs (joinLF ?ps) = filter nonBlank ?ps" using free by blast
  moreover have "joinLF ?ps = [0x20, 0x61, 0x20, 0x62, 0x20, 0xA, 0xA, 0x9, 0xA, 0x63]"
    by (simp add: LF_def)
  moreover have "filter nonBlank ?ps = [ [0x20, 0x61, 0x20, 0x62, 0x20], [0x63] ]"
    by (simp add: nonBlank_def isWhiteSpace_def)
  ultimately show ?thesis by simp
qed

text \<open>The claim as stated fails: the paragraph of the text space, \<open>a\<close>, space is that
  text itself, not its trimmed form \<open>a\<close>.\<close>

theorem segmenter_does_not_trim:
  "splitParagraphs [0x20, 0x61, 0x20] = [ [0x20, 0x61, 0x20] ] \<and> trim [0x20, 0x61, 0x20] = [0x61]"
  by code_simp

section \<open>Blank input (C6)\<close>

text \<open>
  C6, as amended. For a text of whitespace and line feeds only, the empty text included,
  \<open>mockProcessTextResponse\<close> and \<open>processChineseText\<close> return the text with zero
  paragraphs; the handler of \<open>POST /api/process\<close> does so for every such text that is
  not empty.
\<close>

theorem blank_input_no_paragraphs:
  "\<forall>c \<in> set s. isWhiteSpace c \<Longrightarrow>
   mockProcessTextResponse s = Some \<lparr> original = s, paragraphs = [] \<rparr> \<and>
   processChineseText s = \<lparr> original = s, paragraphs = [] \<rparr> \<and>
   (s \<noteq> [] \<longrightarrow> apiProcess (Some s) = Response 200 (Data \<lparr> original = s, paragraphs = [] \<rparr>))"
  by (simp add: mockProcessTextResponse_Some mockResult_def processChineseText_def
      apiProcess_def splitParagraphs_blank)

theorem blank_input_no_paragraphs_witness:
  "mockProcessTextResponse [0x20, 0xA, 0x3000, 0xA] = Some \<lparr> original = [0x20, 0xA, 0x3000, 0xA], paragraphs = [] \<rparr> \<and>
   processChineseText [0x20, 0xA, 0x3000, 0xA] = \<lparr> original = [0x20, 0xA, 0x3000, 0xA], paragraphs = [] \<rparr> \<and>
   apiProcess (Some [0x20, 0xA, 0x3000, 0xA])
     = Response 200 (Data \<lparr> original = [0x20, 0xA, 0x3000, 0xA], paragraphs = [] \<rparr>)"
  using blank_input_no_paragraphs[of "[0x20, 0xA, 0x3000, 0xA]"]
  by (simp add: isWhiteSpace_def)

text \<open>The claim as stated fails at the empty text, which the handler answers with
  status 400 and the message \<open>No text provided\<close>.\<close>

theorem api_rejects_empty_text:
  "apiProcess (Some []) = Response 400 (ErrorMessage [0x4E, 0x6F, 0x20, 0x74, 0x65, 0x78, 0x74, 0x20,
                                        0x70, 0x72, 0x6F, 0x76, 0x69, 0x64, 0x65, 0x64])"
  by (simp add: apiProcess_def)

section \<open>Determinism (C7)\<close>

text \<open>
  C7. The output of the mock pipeline is a function of the text, the idiom catalog and
  the answers of the lexicon lookups on the characters of the text, and of nothing else:
  two runs on the same text and catalog whose lookups answer alike on every character of
  the text give the same result, paragraph for paragraph and token for token (and when
  one run does not return, neither does the other). With the same lookups in both runs
  this is the claim.
\<close>

theorem mock_output_determined:
  "\<forall>c \<in> set s. pin (Some [c]) = pin' (Some [c]) \<and> tr (Some [c]) = tr' (Some [c]) \<Longrightarrow>
   mockProcessText pin tr catalog s = mockProcessText pin' tr' catalog s"
proof -
  assume agree: "\<forall>c \<in> set s. pin (Some [c]) = pin' (Some [c]) \<and> tr (Some [c]) = tr' (Some [c])"
  have "mockParagraph pin tr catalog p = mockParagraph pin' tr' catalog p"
    if "p \<in> set (splitParagraphs s)" for p
    using splitParagraphs_chars[OF that] agree by (intro mockParagraph_agree) blast
  then have "mapOption (mockParagraph pin tr catalog) (splitParagraphs s)
      = mapOption (mockParagraph pin' tr' catalog) (splitParagraphs s)"
    by (intro mapOption_cong) blast
  then show ?thesis by (simp add: mockProcessText_def)
qed


theorem mock_output_determined_witness:
  "mockProcessText getMockPinyin getMockTranslation sampleChengyu [0x4EBA, 0xA, 0x4EBA]
     = mockProcessText (getMockPinyin(Some [0x4E0D] := [])) (getMockTranslation(None := []))
         sampleChengyu [0x4EBA, 0xA, 0x4EBA]"
  using mock_output_determined[where s = "[0x4EBA, 0xA, 0x4EBA]" and pin = getMockPinyin
      and tr = getMockTranslation and pin' = "getMockPinyin(Some [0x4E0D] := [])"
      and tr' = "getMockTranslation(None := [])" and catalog = sampleChengyu]
  by simp

section \<open>A failing lookup stays local (C8)\<close>

text \<open>
  C8. A lookup in one of the mock's tables yields the entry of the key when there is a
  non-empty one, and the placeholder when there is none. The mock returns for every
  text, whatever the lookups answer, and every token of its result carries the lookups
  of its own text, which is a character of the input: the table entries where the
  character has them, the placeholders where it has none. The same holds of the lookups
  \<open>getPinyin\<close> and \<open>getTranslation\<close> of the server. And when the lookups for one
  character \<open>c\<close> fail, that is answer the placeholders, the result is the one of the run
  in which they succeed with the tokens whose text is \<open>c\<close> given the placeholders:
  every other token, and the order of all tokens, is the same. For the text U+4EBA
  U+53EF U+4EBA, where only U+4EBA is in the tables, the two tokens of U+4EBA carry its
  entries and the token of U+53EF the placeholders.
\<close>

theorem token_carries_own_lookup:
  "(map_of table (toStr char) = None \<longrightarrow> lookupOr table placeholder char = placeholder) \<and>
   (\<forall>v. map_of table (toStr char) = Some v \<and> v \<noteq> [] \<longrightarrow> lookupOr table placeholder char = v) \<and>
   (\<exists>r. mockProcessText pin tr sampleChengyu s = Some r) \<and>
   (\<exists>r. mockProcessTextResponse s = Some r \<and>
        (\<forall>para \<in> set (paragraphs r). \<forall>sg \<in> set (segments para).
           pinyin sg = lookupOr mockPinyinMap pinyinPlaceholder (segText sg) \<and>
           translation sg = lookupOr mockTranslationMap translationPlaceholder (segText sg) \<and>
           (\<exists>c \<in> set s. segText sg = Some [c]))) \<and>
   (\<forall>r. mockProcessText pin tr catalog s = Some r \<longrightarrow>
        (\<forall>para \<in> set (paragraphs r). \<forall>sg \<in> set (segments para).
           pinyin sg = pin (segText sg) \<and> translation sg = tr (segText sg))) \<and>
   (\<forall>para \<in> set (paragraphs (processChineseText s)). \<forall>sg \<in> set (segments para).
        pinyin sg = getPinyin (segText sg) \<and> translation sg = getTranslation (segText sg)) \<and>
   mockProcessText (pin(Some [c] := pinyinPlaceholder)) (tr(Some [c] := translationPlaceholder))
       catalog s
     = map_option
         (mapSegments (\<lambda>sg. if segText sg = Some [c]
                             then sg\<lparr> pinyin := pinyinPlaceholder,
                                      translation := translationPlaceholder \<rparr>
                             else sg))
         (mockProcessText pin tr catalog s) \<and>
   map_option (\<lambda>r. map (\<lambda>para. map (\<lambda>sg. (segText sg, pinyin sg, translation sg)) (segments para))
                        (paragraphs r))
       (mockProcessTextResponse [0x4EBA, 0x53EF, 0x4EBA])
     = Some [ [(Some [0x4EBA], [0x72, 0xE9, 0x6E], [0x70, 0x65, 0x72, 0x73, 0x6F, 0x6E]),
              (Some [0x4EBA], [0x72, 0xE9, 0x6E], [0x70, 0x65, 0x72, 0x73, 0x6F, 0x6E]),
              (Some [0x53EF], pinyinPlaceholder, translationPlaceholder)] ]"
proof (intro conjI)
  show "map_of table (toStr char) = None \<longrightarrow> lookupOr table placeholder char = placeholder"
    by (simp add: lookupOr_def)
  show "\<forall>v. map_of table (toStr char) = Some v \<and> v \<noteq> [] \<longrightarrow> lookupOr table placeholder char = v"
    by (simp add: lookupOr_def)
  show "\<exists>r. mockProcessText pin tr sampleChengyu s = Some r"
    by (simp add: mockProcessText_Some sampleChengyu_nonempty)
  show "\<exists>r. mockProcessTextResponse s = Some r \<and>
        (\<forall>para \<in> set (paragraphs r). \<forall>sg \<in> set (segments para).
           pinyin sg = lookupOr mockPinyinMap pinyinPlaceholder (segText sg) \<and>
           translation sg = lookupOr mockTranslationMap translationPlaceholder (segText sg) \<and>
           (\<exists>c \<in> set s. segText sg = Some [c]))"
  proof -
    obtain r where r: "mockProcessText getMockPinyin getMockTranslation sampleChengyu s = Some r"
      by (simp add: mockProcessText_Some sampleChengyu_nonempty)
    have "pinyin sg = lookupOr mockPinyinMap pinyinPlaceholder (segText sg) \<and>
          translation sg = lookupOr mockTranslationMap translationPlaceholder (segText sg) \<and>
          (\<exists>c \<in> set s. segText sg = Some [c])"
      if "para \<in> set (paragraphs r)" and "sg \<in> set (segments para)" for para sg
      using mockProcessText_labels[OF r that] mockProcessText_texts[OF r that]
      by (simp add: getMockPinyin_def getMockTranslation_def)
    then show ?thesis using r by (auto simp: mockProcessTextResponse_def)
  qed
  show "\<forall>r. mockProcessText pin tr catalog s = Some r \<longrightarrow>
        (\<forall>para \<in> set (paragraphs r). \<forall>sg \<in> set (segments para).
           pinyin sg = pin (segText sg) \<and> translation sg = tr (segText sg))"
    using mockProcessText_labels by blast
  show "\<forall>para \<in> set (paragraphs (processChineseText s)). \<forall>sg \<in> set (segments para).
        pinyin sg = getPinyin (segText sg) \<and> translation sg = getTranslation (segText sg)"
    using server_labels by blast
  let ?pin = "pin(Some [c] := pinyinPlaceholder)"
  let ?tr = "tr(Some [c] := translationPlaceholder)"
  let ?fail = "\<lambda>sg. if segText sg = Some [c]
                      then sg\<lparr> pinyin := pinyinPlaceholder, translation := translationPlaceholder \<rparr>
                      else sg"
  show "mockProcessText ?pin ?tr catalog s = map_option (mapSegments ?fail) (mockProcessText pin tr catalog s)"
  proof (cases "mockProcessText pin tr catalog s")
    case None
    then show ?thesis using mockProcessText_relabel[of ?pin ?tr catalog s pin tr] by simp
  next
    case (Some r)
    have "relabel ?pin ?tr sg = ?fail sg"
      if "para \<in> set (paragraphs r)" and "sg \<in> set (segments para)" for para sg
      using mockProcessText_labels[OF Some that] by (simp add: relabel_def)
    then have "mapSegments (relabel ?pin ?tr) r = mapSegments ?fail r"
      by (rule mapSegments_cong)
    then show ?thesis using Some mockProcessText_relabel[of ?pin ?tr catalog s pin tr] by simp
  qed
  show "map_option (\<lambda>r. map (\<lambda>para. map (\<lambda>sg. (segText sg, pinyin sg, translation sg)) (segments para))
                        (paragraphs r))
       (mockProcessTextResponse [0x4EBA, 0x53EF, 0x4EBA])
     = Some [ [(Some [0x4EBA], [0x72, 0xE9, 0x6E], [0x70, 0x65, 0x72, 0x73, 0x6F, 0x6E]),
              (Some [0x4EBA], [0x72, 0xE9, 0x6E], [0x70, 0x65, 0x72, 0x73, 0x6F, 0x6E]),
              (Some [0x53EF], pinyinPlaceholder, translationPlaceholder)] ]"
    by code_simp
qed

theorem token_carries_own_lookup_witness:
  "lookupOr mockPinyinMap pinyinPlaceholder (Some [0x53EF]) = pinyinPlaceholder \<and>
   lookupOr mockPinyinMap pinyinPlaceholder (Some [0x4EBA]) = [0x72, 0xE9, 0x6E] \<and>
   (\<exists>r. mockProcessText getMockPinyin getMockTranslation sampleChengyu
          [0x4EBA, 0x4E0D, 0x662F, 0x4EBA] = Some r) \<and>
   mockProcessText (getMockPinyin(Some [0x4EBA] := pinyinPlaceholder))
       (getMockTranslation(Some [0x4EBA] := translationPlaceholder))
       sampleChengyu [0x4EBA, 0x4E0D, 0x662F, 0x4EBA]
     = map_option
         (mapSegments (\<lambda>sg. if segText sg = Some [0x4EBA]
                             then sg\<lparr> pinyin := pinyinPlaceholder,
                                      translation := translationPlaceholder \<rparr>
                             else sg))
         (mockProcessText getMockPinyin getMockTranslation sampleChengyu
            [0x4EBA, 0x4E0D, 0x662F, 0x4EBA])"
proof -
  note inst = token_carries_own_lookup[where pin = getMockPinyin and tr = getMockTranslation
      and s = "[0x4EBA, 0x4E0D, 0x662F, 0x4EBA]" and c = "0x4EBA" and catalog = sampleChengyu
      and placeholder = pinyinPlaceholder and table = mockPinyinMap]
  have none: "map_of mockPinyinMap (toStr (Some [0x53EF])) = None"
    by (simp add: mockPinyinMap_def toStr_def)
  have some: "map_of mockPinyinMap (toStr (Some [0x4EBA])) = Some [0x72, 0xE9, 0x6E]"
    by (simp add: mockPinyinMap_def toStr_def)
  have "lookupOr mockPinyinMap pinyinPlaceholder (Some [0x53EF]) = pinyinPlaceholder"
    using inst[where char = "Some [0x53EF]"] none by blast
  moreover have "lookupOr mockPinyinMap pinyinPlaceholder (Some [0x4EBA]) = [0x72, 0xE9, 0x6E]"
    using inst[where char = "Some [0x4EBA]"] some by blast
  ultimately show ?thesis using inst[where char = "Some [0x4EBA]"] by blast
qed

section \<open>Plain tokens of the mock (C9)\<close>

text \<open>
  C9. Started on the segments collected so far, the plain-character loop of the mock
  appends a non-idiom token for exactly the positions \<open>i\<close> of the paragraph for which no
  collected segment with the idiom flag has the text \<open>paragraph[i]\<close>, in ascending
  order of \<open>i\<close>: the test compares character values, not positions.
\<close>

theorem plain_pass_value_keyed:
  "plainPass pin tr p 0 segs
     = segs @ map (plainSegment pin tr p)
         (filter (\<lambda>i. \<not> (\<exists>s \<in> set segs. segText s = charAt p (int i) \<and> isChengyu s))
                 [0 ..< length p])"
  by (rule plainPass_eq)

text \<open>For the paragraph U+4E00 U+5FC3 U+4E00 U+610F U+4E00 U+597D, after the four
  idiom tokens, the loop skips the fifth character, whose value U+4E00 occurs in the
  idiom, and pushes a token for the sixth only.\<close>

theorem plain_pass_value_keyed_witness:
  "map segText
     (plainPass getMockPinyin getMockTranslation [0x4E00, 0x5FC3, 0x4E00, 0x610F, 0x4E00, 0x597D] 0
        (markChengyu getMockPinyin getMockTranslation
           [0x4E00, 0x5FC3, 0x4E00, 0x610F, 0x4E00, 0x597D] [0x4E00, 0x5FC3, 0x4E00, 0x610F] 0))
   = [Some [0x4E00], Some [0x5FC3], Some [0x4E00], Some [0x610F], Some [0x597D] ]"
  by (subst plain_pass_value_keyed) code_simp

section \<open>The client falls back to the mock (C10)\<close>

text \<open>
  C10. Whatever the network does, \<open>processText\<close> returns a result. When \<open>fetch\<close>
  rejects or the response is not ok, the result is that of \<open>mockProcessTextResponse\<close>
  on the same text, which itself always returns.
\<close>

theorem processText_always_resolves:
  "(\<exists>r. processText net s = Some r) \<and>
   (net = FetchRejected \<or> (\<exists>parsed. net = FetchResponse False parsed) \<longrightarrow>
      (\<exists>m. mockProcessTextResponse s = Some m \<and> processText net s = Some (FromMock m)))"
  by (auto simp: processText_def tryFetch_def mockProcessTextResponse_Some
      split: fetchResult.splits option.splits sum.splits)

theorem processText_always_resolves_witness:
  "(\<exists>r. processText (FetchResponse False (None :: unit option)) [0x4EBA] = Some r) \<and>
   (\<exists>m. mockProcessTextResponse [0x4EBA] = Some m \<and>
        processText (FetchResponse False (None :: unit option)) [0x4EBA] = Some (FromMock m))"
  using processText_always_resolves[of "FetchResponse False (None :: unit option)" "[0x4EBA]"]
  by simp

end
